theory Spec2Isabelle
  imports Complex_Main
begin

section \<open>The MIDI to MML transcoder of \<open>7ds_midi.py\<close>\<close>

text \<open>
  A shallow embedding of the classes \<open>Note\<close>, \<open>Rest\<close>, \<open>Line\<close>, \<open>Track\<close> and \<open>Midi\<close>.
  Python integers are \<open>int\<close>, strings are \<open>string\<close>, and every exception the code can
  raise is a value \<open>Inl e\<close> of the result type \<open>error + 'a\<close>.
\<close>

subsection \<open>Exceptions\<close>

datatype error = AssertionError | KeyError | IndexError | ZeroDivisionError | RecursionError

fun error_name :: "error \<Rightarrow> string" where
  "error_name AssertionError = ''AssertionError''"
| "error_name KeyError = ''KeyError''"
| "error_name IndexError = ''IndexError''"
| "error_name ZeroDivisionError = ''ZeroDivisionError''"
| "error_name RecursionError = ''RecursionError''"

subsection \<open>Built-ins: \<open>round\<close>, \<open>str\<close>, \<open>str.join\<close>\<close>

text \<open>
  Python 3 rounds a float to the nearest integer and a tie to the even neighbour.
  Floats are modelled by exact rationals.
\<close>

definition py_round :: "rat \<Rightarrow> int" where
  "py_round x =
     (let f = \<lfloor>x\<rfloor>; r = x - of_int f
      in if r < 1 / 2 then f
         else if 1 / 2 < r then f + 1
         else if even f then f else f + 1)"

definition digit_char :: "nat \<Rightarrow> char" where
  "digit_char d = ''0123456789'' ! d"

function str_nat :: "nat \<Rightarrow> string" where
  "str_nat n = (if n < 10 then [digit_char n] else str_nat (n div 10) @ [digit_char (n mod 10)])"
  by pat_completeness auto
termination
  by (relation "measure (\<lambda>n. n)") auto

declare str_nat.simps [simp del]

definition str_int :: "int \<Rightarrow> string" where
  "str_int i = (if i < 0 then CHR ''-'' # str_nat (nat (- i)) else str_nat (nat i))"

fun join :: "string \<Rightarrow> string list \<Rightarrow> string" where
  "join sep [] = []"
| "join sep [x] = x"
| "join sep (x # y # ys) = x @ sep @ join sep (y # ys)"

text \<open>A generator of fallible results, consumed in order: the first exception wins.\<close>

fun collect :: "('a \<Rightarrow> error + string) \<Rightarrow> 'a list \<Rightarrow> error + string list" where
  "collect f [] = Inr []"
| "collect f (x # xs) =
     (case f x of
        Inl e \<Rightarrow> Inl e
      | Inr s \<Rightarrow> (case collect f xs of Inl e \<Rightarrow> Inl e | Inr ss \<Rightarrow> Inr (s # ss)))"

subsection \<open>Events\<close>

text \<open>
  A mido message: \<open>msg.type\<close> is \<open>note_on\<close>, \<open>note_off\<close> or any other type; only the
  first two carry \<open>msg.note\<close> and \<open>msg.velocity\<close>; all carry the delta time \<open>msg.time\<close>.
\<close>

datatype Msg =
    note_on (msg_time: int) (msg_note: int) (msg_velocity: int)
  | note_off (msg_time: int) (msg_note: int) (msg_velocity: int)
  | other_msg (msg_type: string) (msg_time: int)

subsection \<open>Note and Rest\<close>

text \<open>
  The objects a \<open>Line\<close> holds. A \<open>Rest\<close> is a \<open>Note\<close> subclass whose constructor sets
  only \<open>pitch\<close>, \<open>start\<close> and \<open>duration\<close>.
\<close>

datatype Entity =
    Note (note_value: int) (pitch: string) (octave: int) (start: int) (duration: int)
      (velocity: int)
  | Rest (pitch: string) (start: int) (duration: int)

definition PITCHES :: "string list" where
  "PITCHES = [''C'', ''C#'', ''D'', ''D#'', ''E'', ''F'', ''F#'', ''G'', ''G#'', ''A'', ''A#'', ''B'']"

definition Note_init :: "Msg \<Rightarrow> int \<Rightarrow> int \<Rightarrow> bool \<Rightarrow> Entity" where
  "Note_init msg start0 duration0 disable_vel =
     Note (msg_note msg)
          (PITCHES ! nat (msg_note msg mod 12))
          (msg_note msg div 12 - 1)
          start0
          duration0
          (if disable_vel then 12 else py_round (of_int (msg_velocity msg) * (16 / 128)))"

definition Rest_init :: "int \<Rightarrow> int \<Rightarrow> Entity" where
  "Rest_init start0 duration0 = Rest ''R'' start0 duration0"

definition end_of :: "Entity \<Rightarrow> int" where
  "end_of e = start e + duration e"

text \<open>The ordered dictionary \<open>d\<close> of \<open>_get_length_str\<close>, in insertion order.\<close>

definition length_table :: "(int \<times> string) list" where
  "length_table =
     [(1, ''16''), (2, ''8''), (3, ''8.''), (4, ''''), (6, ''4.''), (8, ''2''),
      (12, ''2.''), (16, ''1''), (24, ''1.'')]"

text \<open>
  \<open>for key in reversed(d): if key < duration: low = key; break\<close>;
  \<open>low\<close> stays \<open>None\<close> when no key is smaller.
\<close>

definition find_low :: "int \<Rightarrow> int option" where
  "find_low duration0 = find (\<lambda>key. key < duration0) (rev (map fst length_table))"

text \<open>
  \<open>not result\<close> is true for \<open>None\<close> and for the empty string. \<open>d[low]\<close> raises
  \<open>KeyError\<close> when \<open>low\<close> is \<open>None\<close>.

  The method calls itself once for each segment after the first, and each call takes a
  frame of the interpreter's stack, which holds \<open>sys.getrecursionlimit()\<close> frames (1000
  unless changed; the code does not change it). The parameter \<open>frames\<close> is the number of
  frames that are left when the method is called: with none left the call raises
  \<open>RecursionError\<close>, and the call it makes has one frame less.
\<close>

function get_length_str :: "nat \<Rightarrow> string \<Rightarrow> int \<Rightarrow> error + string" where
  "get_length_str frames p duration0 =
     (if frames = 0 then Inl RecursionError
      else if \<not> duration0 \<ge> 1 then Inl AssertionError
      else (case map_of length_table duration0 of
              Some (c # cs) \<Rightarrow> Inr (c # cs)
            | _ \<Rightarrow>
                (case find_low duration0 of
                   None \<Rightarrow> Inl KeyError
                 | Some low \<Rightarrow>
                     (case map_of length_table low of
                        None \<Rightarrow> Inl KeyError
                      | Some t \<Rightarrow>
                          (case get_length_str (frames - 1) p (duration0 - low) of
                             Inl e \<Rightarrow> Inl e
                           | Inr rest \<Rightarrow> Inr (t @ ''&'' @ p @ rest))))))"
  by pat_completeness auto
termination
  by (relation "measure (\<lambda>(frames, p, d). frames)") auto

declare get_length_str.simps [simp del]

text \<open>
  \<open>Note.encode\<close> and \<open>Rest.encode\<close>; the call \<open>note.encode()\<close> dispatches on the class
  of the object. Here and in the callers of \<open>encode\<close>, \<open>frames\<close> is the number of stack
  frames left for \<open>_get_length_str\<close> at the place where \<open>encode\<close> calls it.
\<close>

fun encode :: "nat \<Rightarrow> Entity \<Rightarrow> error + string" where
  "encode frames (Note nv p oc st du v) =
     (if du \<le> 0 then Inr []
      else (case get_length_str frames p du of
              Inl e \<Rightarrow> Inl e
            | Inr len \<Rightarrow>
                Inr ((if v \<noteq> 12 then ''V'' @ str_int v else []) @ ''O'' @ str_int oc @ p @ len)))"
| "encode frames (Rest p st du) =
     (case get_length_str frames p du of Inl e \<Rightarrow> Inl e | Inr len \<Rightarrow> Inr (p @ len))"

subsection \<open>Line\<close>

text \<open>
  A \<open>Line\<close> is a Python list (here \<open>entries\<close>) with the two extra attributes \<open>start\<close>
  and \<open>duration\<close>.
\<close>

record Line =
  entries :: "Entity list"
  Line_start :: int
  Line_duration :: int

definition Line_end :: "Line \<Rightarrow> int" where
  "Line_end l = Line_start l + Line_duration l"

definition Line_init :: "int \<Rightarrow> Line" where
  "Line_init start0 =
     \<lparr>entries = (if start0 > 0 then [Rest_init 0 start0] else []),
      Line_start = start0, Line_duration = 0\<rparr>"

definition Line_append :: "Line \<Rightarrow> Entity \<Rightarrow> Line" where
  "Line_append l note =
     (let l1 = (if start note > Line_end l
                then l\<lparr>entries := entries l @ [Rest_init (Line_end l) (start note - Line_end l)],
                       Line_duration := Line_duration l + (start note - Line_end l)\<rparr>
                else l)
      in l1\<lparr>entries := entries l1 @ [note],
             Line_duration := Line_duration l1 + duration note\<rparr>)"

definition Line_encode :: "nat \<Rightarrow> Line \<Rightarrow> error + string" where
  "Line_encode frames l =
     (case collect (encode frames) (entries l) of Inl e \<Rightarrow> Inl e | Inr ss \<Rightarrow> Inr (concat ss))"

subsection \<open>Track\<close>

text \<open>
  \<open>for line in reversed(lines): if line.end <= note.start: return line\<close>: the index of
  the last line of the list that ends no later than the note starts.
\<close>

fun scan_reversed :: "Line list \<Rightarrow> Entity \<Rightarrow> nat option" where
  "scan_reversed [] note = None"
| "scan_reversed (l # ls) note =
     (case scan_reversed ls note of
        Some i \<Rightarrow> Some (Suc i)
      | None \<Rightarrow> (if Line_end l \<le> start note then Some 0 else None))"

text \<open>
  \<open>_get_available_line\<close> returns a reference into \<open>lines\<close>, which it may have extended:
  here the list and the index of the line returned.
\<close>

definition get_available_line :: "Line list \<Rightarrow> Entity \<Rightarrow> Line list \<times> nat" where
  "get_available_line lines0 note =
     (case scan_reversed lines0 note of
        Some i \<Rightarrow> (lines0, i)
      | None \<Rightarrow> (lines0 @ [Line_init (start note)], length lines0))"

record state =
  durations :: "int \<rightharpoonup> Entity list"
  lines :: "Line list"
  time :: int

definition init_state :: state where
  "init_state = \<lparr>durations = Map.empty, lines = [], time = 0\<rparr>"

fun add_duration :: "int \<Rightarrow> Entity \<Rightarrow> Entity" where
  "add_duration dt (Note nv p oc st du v) = Note nv p oc st (du + dt) v"
| "add_duration dt (Rest p st du) = Rest p st (du + dt)"

text \<open>The note-on branch of the loop body.\<close>

definition open_note :: "bool \<Rightarrow> state \<Rightarrow> Msg \<Rightarrow> state" where
  "open_note disable_vel0 s msg =
     (let stack = (case durations s (msg_note msg) of None \<Rightarrow> [] | Some ns \<Rightarrow> ns)
      in s\<lparr>durations := (durations s)(msg_note msg \<mapsto>
              stack @ [Note_init msg (time s) 0 disable_vel0])\<rparr>)"

text \<open>
  The note-off branch: \<open>durations[msg.note]\<close> raises \<open>KeyError\<close> for a pitch that was
  never opened, and \<open>pop()\<close> raises \<open>IndexError\<close> on an empty list.
\<close>

definition close_note :: "state \<Rightarrow> Msg \<Rightarrow> error + state" where
  "close_note s msg =
     (case durations s (msg_note msg) of
        None \<Rightarrow> Inl KeyError
      | Some ns \<Rightarrow>
          (if ns = [] then Inl IndexError
           else (let note = last ns;
                     (ls, i) = get_available_line (lines s) note
                 in Inr (s\<lparr>durations := (durations s)(msg_note msg \<mapsto> butlast ns),
                           lines := ls[i := Line_append (ls ! i) note]\<rparr>))))"

text \<open>
  The head of the loop body: the time counter and the duration of every open note grow by
  the quantised delta of the message.
\<close>

definition advance :: "int \<Rightarrow> state \<Rightarrow> state" where
  "advance dt s =
     s\<lparr>time := time s + dt,
       durations := (\<lambda>k. map_option (map (add_duration dt)) (durations s k))\<rparr>"

text \<open>
  One iteration of the loop of \<open>Track.encode\<close>. The parameter \<open>t2s\<close> stands for
  \<open>self._tick_to_sixteenth\<close>, which is called with the same argument for the time
  counter and for every open note.
\<close>

definition step :: "(int \<Rightarrow> error + int) \<Rightarrow> bool \<Rightarrow> state \<Rightarrow> Msg \<Rightarrow> error + state" where
  "step t2s disable_vel0 s msg =
     (case t2s (msg_time msg) of
        Inl e \<Rightarrow> Inl e
      | Inr dt \<Rightarrow>
          (let s1 = advance dt s
           in (case msg of
                 note_on t n v \<Rightarrow>
                   (if v > 0 then Inr (open_note disable_vel0 s1 msg) else close_note s1 msg)
               | note_off t n v \<Rightarrow> close_note s1 msg
               | other_msg ty t \<Rightarrow> Inr s1)))"

fun run_loop :: "(int \<Rightarrow> error + int) \<Rightarrow> bool \<Rightarrow> state \<Rightarrow> Msg list \<Rightarrow> error + state" where
  "run_loop t2s disable_vel0 s [] = Inr s"
| "run_loop t2s disable_vel0 s (msg # msgs) =
     (case step t2s disable_vel0 s msg of
        Inl e \<Rightarrow> Inl e
      | Inr s' \<Rightarrow> run_loop t2s disable_vel0 s' msgs)"

definition encode_lines :: "nat \<Rightarrow> Line list \<Rightarrow> error + string" where
  "encode_lines frames ls =
     (case collect (Line_encode frames) ls of Inl e \<Rightarrow> Inl e | Inr ss \<Rightarrow> Inr (join '','' ss))"

definition encode_with ::
  "nat \<Rightarrow> (int \<Rightarrow> error + int) \<Rightarrow> bool \<Rightarrow> Msg list \<Rightarrow> error + string" where
  "encode_with frames t2s disable_vel0 msgs =
     (case run_loop t2s disable_vel0 init_state msgs of
        Inl e \<Rightarrow> Inl e
      | Inr s \<Rightarrow> encode_lines frames (lines s))"

record Track =
  track :: "Msg list"
  tpb :: rat
  disable_vel :: bool

definition Track_init :: "Msg list \<Rightarrow> int \<Rightarrow> bool \<Rightarrow> rat \<Rightarrow> Track" where
  "Track_init track0 ticks_per_beat disable_vel0 speed_mult =
     \<lparr>track = track0, tpb = of_int ticks_per_beat * speed_mult, disable_vel = disable_vel0\<rparr>"

text \<open>
  \<open>round((ticks / self.tpb) * 4)\<close>; the division raises when \<open>tpb\<close> is zero. The code
  computes in IEEE doubles and this definition in exact rationals: the two agree when the
  quotient and its product with 4 are computed exactly by the doubles, as they are for
  \<open>tpb = 480.0\<close> and the ticks of the scenarios below, and they can differ otherwise
  (for a speed multiplier of 0.8, for example). For this reason the statements about the
  loop of the track encoder take the quantiser as the parameter \<open>t2s\<close> and hold for
  every function, and the scenarios below use values at which it is exact.
\<close>

definition tick_to_sixteenth :: "rat \<Rightarrow> int \<Rightarrow> error + int" where
  "tick_to_sixteenth tpb0 ticks =
     (if tpb0 = 0 then Inl ZeroDivisionError
      else Inr (py_round ((of_int ticks / tpb0) * 4)))"

definition Track_encode :: "nat \<Rightarrow> Track \<Rightarrow> error + string" where
  "Track_encode frames tr =
     encode_with frames (tick_to_sixteenth (tpb tr)) (disable_vel tr) (track tr)"

subsection \<open>Midi\<close>

text \<open>
  The constructor reads the file; \<open>track0\<close> is \<open>merge_tracks(self.midi.tracks)\<close> and
  \<open>ticks_per_beat\<close> is \<open>self.midi.ticks_per_beat\<close>.
\<close>

record Midi =
  tempo :: int
  midi_track :: Track

definition Midi_init :: "Msg list \<Rightarrow> int \<Rightarrow> int \<Rightarrow> bool \<Rightarrow> rat \<Rightarrow> Midi" where
  "Midi_init track0 ticks_per_beat tempo0 disable_vel0 speed_mult =
     \<lparr>tempo = tempo0, midi_track = Track_init track0 ticks_per_beat disable_vel0 speed_mult\<rparr>"

definition Midi_encode :: "nat \<Rightarrow> Midi \<Rightarrow> error + string" where
  "Midi_encode frames m =
     (case Track_encode frames (midi_track m) of
        Inl e \<Rightarrow> Inl e
      | Inr body \<Rightarrow>
          Inr (''7ML@'' @ (if tempo m \<noteq> 120 then ''T'' @ str_int (tempo m) else []) @ body @ '';''))"

section \<open>Vocabulary of the properties\<close>

text \<open>The table token of a key, and a tie chain: tokens joined by \<open>&\<close> and the pitch.\<close>

definition table_keys :: "int list" where
  "table_keys = map fst length_table"

definition token_of :: "int \<Rightarrow> string" where
  "token_of k = (case map_of length_table k of Some t \<Rightarrow> t | None \<Rightarrow> [])"

definition tie_chain :: "string \<Rightarrow> int list \<Rightarrow> string" where
  "tie_chain p ks = join (''&'' @ p) (map token_of ks)"

text \<open>
  Scenario A: one note of pitch 60 and velocity 100, from tick 0 for one beat of 480
  ticks, with tempo 120, velocities enabled and speed multiplier 1.0.
\<close>

definition scenario_A :: Midi where
  "scenario_A = Midi_init [note_on 0 60 100, note_off 480 60 0] 480 120 False 1"

text \<open>
  Scenario C: two notes of different pitch that start together, at tempo 90.
\<close>

definition scenario_C :: Midi where
  "scenario_C =
     Midi_init [note_on 0 60 100, note_on 0 64 80, note_off 480 60 0, note_off 0 64 0]
       480 90 False 1"

text \<open>
  Scenario B: a line that starts after time 0 and has a gap between its two notes, and
  the line the encoder builds for it.
\<close>

definition scenario_B :: "Msg list" where
  "scenario_B = [note_on 480 60 100, note_off 240 60 0, note_on 480 60 100, note_off 240 60 0]"

definition scenario_B_line :: Line where
  "scenario_B_line =
     \<lparr>entries = [Rest ''R'' 0 4, Note 60 ''C'' 4 4 2 12, Rest ''R'' 6 4, Note 60 ''C'' 4 10 2 12],
      Line_start = 4, Line_duration = 8\<rparr>"

text \<open>\<open>isinstance(e, Rest)\<close>.\<close>

fun is_Rest :: "Entity \<Rightarrow> bool" where
  "is_Rest (Rest p st du) = True"
| "is_Rest (Note nv p oc st du v) = False"

text \<open>
  The entries run from time \<open>a\<close> to time \<open>b\<close> without a gap: each starts where the one
  before it ends.
\<close>

fun contiguous :: "int \<Rightarrow> Entity list \<Rightarrow> int \<Rightarrow> bool" where
  "contiguous a [] b = (a = b)"
| "contiguous a (e # es) b = (start e = a \<and> contiguous (end_of e) es b)"

text \<open>Every open note, on every stack of \<open>durations\<close>, satisfies \<open>P\<close>.\<close>

definition stacks_hold :: "(Entity \<Rightarrow> bool) \<Rightarrow> state \<Rightarrow> bool" where
  "stacks_hold P s = (\<forall>k ns. durations s k = Some ns \<longrightarrow> (\<forall>n\<in>set ns. P n))"

text \<open>Invariants of a line, and of the state of the loop.\<close>

definition rests_positive :: "Line \<Rightarrow> bool" where
  "rests_positive l = (\<forall>e\<in>set (entries l). is_Rest e \<longrightarrow> 0 < duration e)"

definition line_ok :: "Line \<Rightarrow> bool" where
  "line_ok l = (entries l \<noteq> [] \<and> contiguous 0 (entries l) (Line_end l)
                 \<and> (\<forall>e\<in>set (entries l). 0 \<le> duration e))"

definition rests_inv :: "state \<Rightarrow> bool" where
  "rests_inv s = (stacks_hold (\<lambda>n. \<not> is_Rest n) s \<and> (\<forall>l\<in>set (lines s). rests_positive l))"

definition lines_inv :: "state \<Rightarrow> bool" where
  "lines_inv s = (stacks_hold (\<lambda>n. 0 \<le> start n \<and> 0 \<le> duration n) s
             \<and> (\<forall>l\<in>set (lines s). line_ok l) \<and> 0 \<le> time s)"

text \<open>
  \<open>stays_open k depth ms\<close>: a note of pitch \<open>k\<close> that has \<open>depth\<close> more recent notes above
  it on the stack of its pitch is not popped by the events \<open>ms\<close>. A note-on of positive
  velocity for \<open>k\<close> pushes one more note above it; a note-off for \<open>k\<close> pops the most
  recent note, which is another one exactly when \<open>depth\<close> is positive.
\<close>

fun stays_open :: "int \<Rightarrow> nat \<Rightarrow> Msg list \<Rightarrow> bool" where
  "stays_open k depth [] = True"
| "stays_open k depth (note_on t n v # ms) =
     (if n = k then
        (if v > 0 then stays_open k (Suc depth) ms
         else depth > 0 \<and> stays_open k (depth - 1) ms)
      else stays_open k depth ms)"
| "stays_open k depth (note_off t n v # ms) =
     (if n = k then depth > 0 \<and> stays_open k (depth - 1) ms else stays_open k depth ms)"
| "stays_open k depth (other_msg ty t # ms) = stays_open k depth ms"

text \<open>The stack of a pitch, empty when the pitch is not a key of \<open>durations\<close>.\<close>

definition stack_of :: "state \<Rightarrow> int \<Rightarrow> Entity list" where
  "stack_of s k = (case durations s k of None \<Rightarrow> [] | Some ns \<Rightarrow> ns)"

text \<open>
  Two states that differ only in one extra note of pitch \<open>k\<close>, which lies in the stack of
  the first state below \<open>a\<close> more recent notes.
\<close>

definition sim :: "int \<Rightarrow> nat \<Rightarrow> state \<Rightarrow> state \<Rightarrow> bool" where
  "sim k a s1 s2 =
     (time s1 = time s2 \<and> lines s1 = lines s2
      \<and> (\<forall>k'. k' \<noteq> k \<longrightarrow> durations s1 k' = durations s2 k')
      \<and> (\<exists>xs x ys. durations s1 k = Some (xs @ x # ys) \<and> stack_of s2 k = xs @ ys
            \<and> length ys = a))"

text \<open>
  The lines \<open>ls'\<close> keep every line of \<open>ls\<close> at its index, with entries added at its
  end only; new lines come after them.
\<close>

definition extends :: "Line list \<Rightarrow> Line list \<Rightarrow> bool" where
  "extends ls ls' =
     (length ls \<le> length ls'
      \<and> (\<forall>i<length ls. \<exists>added. entries (ls' ! i) = entries (ls ! i) @ added))"

section \<open>Duration decomposition\<close>

lemma find_low_props:
  assumes "2 \<le> d"
  shows "\<exists>low. find_low d = Some low \<and> 1 \<le> low \<and> low < d \<and> low \<in> set table_keys
           \<and> map_of length_table low = Some (token_of low)"
  using assms by (auto simp: find_low_def length_table_def table_keys_def token_of_def)

lemma exact_or_ge2:
  assumes "1 \<le> d" and "\<forall>c cs. map_of length_table d \<noteq> Some (c # cs)"
  shows "2 \<le> d"
  using assms by (cases "d = 1") (auto simp: length_table_def)

lemma exact_key:
  assumes "map_of length_table d = Some (c # cs)"
  shows "d \<in> set table_keys \<and> token_of d = c # cs"
  using assms by (auto simp: table_keys_def token_of_def dest: map_of_SomeD intro: rev_image_eqI)

lemma tie_chain_Cons:
  "ks \<noteq> [] \<Longrightarrow> tie_chain p (k # ks) = token_of k @ ''&'' @ p @ tie_chain p ks"
  by (cases ks) (simp_all add: tie_chain_def)

text \<open>
  Whatever the number of frames, a call for a duration of at least 1 either runs out of
  frames or returns a tie chain whose keys sum to the duration.
\<close>

lemma get_length_str_result:
  "1 \<le> d \<Longrightarrow>
     get_length_str frames p d = Inl RecursionError
     \<or> (\<exists>ks. ks \<noteq> [] \<and> set ks \<subseteq> set table_keys \<and> sum_list ks = d
             \<and> get_length_str frames p d = Inr (tie_chain p ks))"
proof (induction frames arbitrary: d)
  case 0
  then show ?case by (simp add: get_length_str.simps)
next
  case (Suc n)
  show ?case
  proof (cases "\<exists>c cs. map_of length_table d = Some (c # cs)")
    case True
    then obtain c cs where m: "map_of length_table d = Some (c # cs)" by blast
    from exact_key [OF m] have k: "d \<in> set table_keys" and t: "token_of d = c # cs"
      by simp_all
    from Suc.prems m have "get_length_str (Suc n) p d = Inr (c # cs)"
      by (simp add: get_length_str.simps)
    with t have "get_length_str (Suc n) p d = Inr (tie_chain p [d])"
      by (simp add: tie_chain_def)
    with k show ?thesis by (intro disjI2 exI [of _ "[d]"]) simp
  next
    case False
    with Suc.prems have "2 \<le> d" by (intro exact_or_ge2) auto
    from find_low_props [OF this] obtain low where
      fl: "find_low d = Some low" and lo: "1 \<le> low" "low < d" and
      key: "low \<in> set table_keys" and tok: "map_of length_table low = Some (token_of low)"
      by blast
    from False have none: "map_of length_table d = None \<or> map_of length_table d = Some []"
      by (metis option.exhaust list.exhaust)
    from lo have "1 \<le> d - low" by simp
    from Suc.IH [OF this] show ?thesis
    proof
      assume "get_length_str n p (d - low) = Inl RecursionError"
      with Suc.prems fl tok none have "get_length_str (Suc n) p d = Inl RecursionError"
        by (subst get_length_str.simps) auto
      then show ?thesis by simp
    next
      assume "\<exists>ks. ks \<noteq> [] \<and> set ks \<subseteq> set table_keys \<and> sum_list ks = d - low
                \<and> get_length_str n p (d - low) = Inr (tie_chain p ks)"
      then obtain ks where
        ks: "ks \<noteq> []" "set ks \<subseteq> set table_keys" "sum_list ks = d - low"
        and r: "get_length_str n p (d - low) = Inr (tie_chain p ks)" by blast
      from Suc.prems fl tok none r
      have "get_length_str (Suc n) p d = Inr (token_of low @ ''&'' @ p @ tie_chain p ks)"
        by (subst get_length_str.simps) auto
      with ks(1) have "get_length_str (Suc n) p d = Inr (tie_chain p (low # ks))"
        by (simp add: tie_chain_Cons)
      with ks key show ?thesis by (intro disjI2 exI [of _ "low # ks"]) simp
    qed
  qed
qed

lemma get_length_str_no_assertion:
  "1 \<le> d \<Longrightarrow> get_length_str frames p d \<noteq> Inl AssertionError"
  using get_length_str_result [of d frames p] by auto






text \<open>
  C1, at the key 4: the table entry of 4 is the empty string, which \<open>not result\<close> takes
  for a missing entry, so a quarter is spelled as a dotted eighth tied to a sixteenth (with
  the two frames that this takes).
\<close>

theorem get_length_str_quarter:
  "get_length_str (Suc (Suc n)) p 4 = Inr (''8.&'' @ p @ ''16'')"
  by (simp add: get_length_str.simps [of "Suc (Suc n)" p 4]
        get_length_str.simps [of "Suc n" p 1] find_low_def length_table_def)

text \<open>Every other key of the table yields its own token.\<close>

lemma get_length_str_exact:
  "d \<in> {1, 2, 3, 6, 8, 12, 16, 24} \<Longrightarrow> get_length_str (Suc n) p d = Inr (token_of d)"
  by (auto simp: get_length_str.simps token_of_def length_table_def)




text \<open>
  C8: a call for a duration below 1 (a call that the stack has a frame for) fails the
  assertion; no token is returned.
\<close>

theorem get_length_str_assertion:
  "d < 1 \<Longrightarrow> get_length_str (Suc n) p d = Inl AssertionError"
  by (simp add: get_length_str.simps)

theorem get_length_str_assertion_witness:
  "(0::int) < 1 \<and> get_length_str 1000 ''R'' 0 = Inl AssertionError"
  using get_length_str_assertion [of 0 999 "''R''"] by simp

section \<open>Encoding a note and a rest\<close>

text \<open>
  C5, as the code has it: a \<open>Note\<close> of duration 0 encodes to the empty string, while
  \<open>Rest.encode\<close> has no such guard and a \<open>Rest\<close> of duration 0 fails the assertion of
  the decomposition (which it calls, so that one frame at least is left).
\<close>

theorem encode_zero_duration:
  "encode frames (Note nv p oc st 0 v) = Inr []
   \<and> encode (Suc n) (Rest p st 0) = Inl AssertionError"
  by (simp add: get_length_str.simps)

theorem encode_zero_rest_counterexample:
  "encode 1000 (Rest_init 0 0) = Inl AssertionError \<and> encode 1000 (Rest_init 0 0) \<noteq> Inr []"
  by (simp add: Rest_init_def get_length_str.simps)

section \<open>The loop of the track encoder\<close>

lemma run_loop_append:
  "run_loop t2s dv s (xs @ ys) =
     (case run_loop t2s dv s xs of Inl e \<Rightarrow> Inl e | Inr s' \<Rightarrow> run_loop t2s dv s' ys)"
  by (induction xs arbitrary: s) (auto split: sum.splits)

lemma collect_Inr_D: "collect f xs = Inr ss \<Longrightarrow> map f xs = map Inr ss"
  by (induction xs arbitrary: ss) (auto split: sum.splits)

lemma collect_Inr_I: "map f xs = map Inr ss \<Longrightarrow> collect f xs = Inr ss"
proof (induction xs arbitrary: ss)
  case Nil
  then show ?case by simp
next
  case (Cons x xs)
  then obtain t ts where "ss = t # ts" "f x = Inr t" "map f xs = map Inr ts"
    by (cases ss) auto
  with Cons.IH [of ts] show ?case by simp
qed

text \<open>
  C3, as the code has it: a note-off (or a note-on of velocity 0) for a pitch with no open
  note stops the conversion with the \<open>KeyError\<close> of the dictionary lookup when the pitch
  was never opened, and with the \<open>IndexError\<close> of \<open>pop\<close> when its stack is empty; there
  is no output.
\<close>

theorem stray_note_off_fails:
  assumes pre: "run_loop t2s dv init_state pre = Inr s"
    and dt: "t2s (msg_time m) = Inr dt"
    and off: "m = note_off t n v \<or> (m = note_on t n v \<and> v \<le> 0)"
    and empty: "durations s n = None \<or> durations s n = Some []"
  shows "encode_with frames t2s dv (pre @ m # post) =
           Inl (if durations s n = None then KeyError else IndexError)"
proof -
  have "step t2s dv s m = Inl (if durations s n = None then KeyError else IndexError)"
    using dt off empty by (auto simp: step_def close_note_def advance_def)
  with pre show ?thesis by (simp add: encode_with_def run_loop_append)
qed

theorem stray_note_off_fails_witness:
  "\<exists>s. run_loop (tick_to_sixteenth 480) False init_state
          [note_on 0 60 100, note_off 480 60 0] = Inr s
     \<and> tick_to_sixteenth 480 (msg_time (note_off 0 60 0)) = Inr 0
     \<and> durations s 60 = Some []
     \<and> encode_with 1000 (tick_to_sixteenth 480) False
         ([note_on 0 60 100, note_off 480 60 0] @ note_off 0 60 0 # []) = Inl IndexError"
proof -
  let ?r = "run_loop (tick_to_sixteenth 480) False init_state
              [note_on 0 60 100, note_off 480 60 0]"
  have "map_sum id (\<lambda>s. durations s 60) ?r = Inr (Some [])"
    by code_simp
  then obtain s where s: "?r = Inr s" and d: "durations s 60 = Some []"
    by (cases ?r) auto
  have q: "tick_to_sixteenth 480 (msg_time (note_off 0 60 0)) = Inr 0"
    by code_simp
  from stray_note_off_fails [OF s q _ disjI2 [OF d], of 0 0 1000 "[]"] d s q
  show ?thesis by simp
qed

theorem stray_note_off_counterexample:
  "Track_encode 1000 (Track_init [note_off 0 60 64] 480 False 1) = Inl KeyError
   \<and> error_name KeyError \<noteq> ''MalformedEventStream''"
  by code_simp

section \<open>Invariants of the line allocator\<close>

lemma scan_reversed_Some:
  "scan_reversed ls note = Some i \<Longrightarrow> i < length ls \<and> Line_end (ls ! i) \<le> start note"
  by (induction ls arbitrary: i) (auto split: option.splits if_splits)

lemma entries_Line_append:
  "entries (Line_append l n) =
     entries l @ (if start n > Line_end l then [Rest_init (Line_end l) (start n - Line_end l)] else [])
       @ [n]"
  by (simp add: Line_append_def Let_def)

lemma Line_end_append:
  "Line_end (Line_append l n) = (if start n > Line_end l then start n else Line_end l) + duration n"
  by (simp add: Line_append_def Let_def Line_end_def)

lemma close_note_cases:
  assumes "close_note s m = Inr s'"
  shows "\<exists>ns. durations s (msg_note m) = Some ns \<and> ns \<noteq> []
           \<and> durations s' = (durations s)(msg_note m \<mapsto> butlast ns) \<and> time s' = time s
           \<and> ((\<exists>i<length (lines s). Line_end (lines s ! i) \<le> start (last ns)
                  \<and> lines s' = (lines s)[i := Line_append (lines s ! i) (last ns)])
                \<or> lines s' = lines s @ [Line_append (Line_init (start (last ns))) (last ns)])"
proof -
  from assms obtain ns where ns: "durations s (msg_note m) = Some ns" "ns \<noteq> []"
    by (auto simp: close_note_def split: option.splits if_splits)
  show ?thesis
  proof (cases "scan_reversed (lines s) (last ns)")
    case None
    with assms ns show ?thesis
      by (auto simp: close_note_def get_available_line_def Let_def)
  next
    case (Some i)
    from scan_reversed_Some [OF Some] assms ns Some show ?thesis
      by (auto simp: close_note_def get_available_line_def Let_def)
  qed
qed

lemma close_note_lines:
  assumes c: "close_note s m = Inr s'"
    and Q: "\<forall>l\<in>set (lines s). Q l"
    and step: "\<And>ns. durations s (msg_note m) = Some ns \<Longrightarrow> ns \<noteq> [] \<Longrightarrow>
                 (\<forall>l. Q l \<and> Line_end l \<le> start (last ns) \<longrightarrow> Q (Line_append l (last ns)))
                 \<and> Q (Line_append (Line_init (start (last ns))) (last ns))"
  shows "\<forall>l\<in>set (lines s'). Q l"
proof -
  from close_note_cases [OF c] obtain ns where
    ns: "durations s (msg_note m) = Some ns" "ns \<noteq> []" and
    ls: "(\<exists>i<length (lines s). Line_end (lines s ! i) \<le> start (last ns)
                  \<and> lines s' = (lines s)[i := Line_append (lines s ! i) (last ns)])
                \<or> lines s' = lines s @ [Line_append (Line_init (start (last ns))) (last ns)]"
    by blast
  note st = step [OF ns]
  from ls show ?thesis
  proof
    assume "\<exists>i<length (lines s). Line_end (lines s ! i) \<le> start (last ns)
                  \<and> lines s' = (lines s)[i := Line_append (lines s ! i) (last ns)]"
    then obtain i where i: "i < length (lines s)" "Line_end (lines s ! i) \<le> start (last ns)"
      "lines s' = (lines s)[i := Line_append (lines s ! i) (last ns)]" by blast
    from Q i(1) have "Q (lines s ! i)" by simp
    with st i(2) have "Q (Line_append (lines s ! i) (last ns))" by blast
    with Q i(3) show ?thesis
      using set_update_subset_insert [of "lines s" i] by auto
  next
    assume "lines s' = lines s @ [Line_append (Line_init (start (last ns))) (last ns)]"
    with Q st show ?thesis by auto
  qed
qed

lemma step_cases:
  assumes "step t2s dv s m = Inr s'"
  shows "\<exists>dt. t2s (msg_time m) = Inr dt
           \<and> (s' = advance dt s \<or> s' = open_note dv (advance dt s) m
                \<or> close_note (advance dt s) m = Inr s')"
  using assms by (auto simp: step_def Let_def split: sum.splits Msg.splits if_splits)

lemma run_loop_invariant:
  assumes "run_loop t2s dv s msgs = Inr s'" and "P s"
    and "\<And>s m s'. m \<in> set msgs \<Longrightarrow> P s \<Longrightarrow> step t2s dv s m = Inr s' \<Longrightarrow> P s'"
  shows "P s'"
  using assms
proof (induction msgs arbitrary: s)
  case Nil
  then show ?case by simp
next
  case (Cons m msgs)
  from Cons.prems(1) obtain s1 where s1: "step t2s dv s m = Inr s1"
    and r: "run_loop t2s dv s1 msgs = Inr s'"
    by (auto split: sum.splits)
  from Cons.prems(3) [OF _ Cons.prems(2) s1] have p1: "P s1" by simp
  show ?case
  proof (rule Cons.IH [OF r p1])
    fix s0 m0 s0'
    assume "m0 \<in> set msgs" "P s0" "step t2s dv s0 m0 = Inr s0'"
    then show "P s0'" using Cons.prems(3) [of m0 s0 s0'] by simp
  qed
qed

lemma is_Rest_add_duration [simp]: "is_Rest (add_duration dt e) = is_Rest e"
  by (cases e) auto

lemma start_add_duration [simp]: "start (add_duration dt e) = start e"
  by (cases e) auto

lemma duration_add_duration [simp]: "duration (add_duration dt e) = duration e + dt"
  by (cases e) auto

lemma stacks_hold_advance:
  assumes "stacks_hold P s" and "\<And>n. P n \<Longrightarrow> P (add_duration dt n)"
  shows "stacks_hold P (advance dt s)"
  using assms by (fastforce simp: stacks_hold_def advance_def)

lemma stacks_hold_open:
  assumes "stacks_hold P s" and "P (Note_init m (time s) 0 dv)"
  shows "stacks_hold P (open_note dv s m)"
proof -
  have "\<forall>n\<in>set ns. P n" if "durations (open_note dv s m) k = Some ns" for k ns
  proof (cases "k = msg_note m")
    case True
    with that have ns: "ns = (case durations s (msg_note m) of None \<Rightarrow> [] | Some ns \<Rightarrow> ns)
                          @ [Note_init m (time s) 0 dv]"
      by (simp add: open_note_def Let_def)
    show ?thesis
    proof (cases "durations s (msg_note m)")
      case None
      with ns assms(2) show ?thesis by simp
    next
      case (Some old)
      with assms(1) have "\<forall>n\<in>set old. P n" by (auto simp: stacks_hold_def)
      with ns Some assms(2) show ?thesis by simp
    qed
  next
    case False
    with that have "durations s k = Some ns" by (simp add: open_note_def Let_def)
    with assms(1) show ?thesis by (auto simp: stacks_hold_def)
  qed
  then show ?thesis by (simp add: stacks_hold_def)
qed

lemma stacks_hold_close:
  assumes "stacks_hold P s" and "close_note s m = Inr s'"
  shows "stacks_hold P s'"
proof -
  from close_note_cases [OF assms(2)] obtain ns where
    ns: "durations s (msg_note m) = Some ns"
    and d: "durations s' = (durations s)(msg_note m \<mapsto> butlast ns)" by blast
  from assms(1) ns have "\<forall>n\<in>set ns. P n" by (auto simp: stacks_hold_def)
  then have "\<forall>n\<in>set (butlast ns). P n" by (auto dest: in_set_butlastD)
  with assms(1) d show ?thesis by (auto simp: stacks_hold_def)
qed

lemma stacks_hold_last:
  "stacks_hold P s \<Longrightarrow> durations s k = Some ns \<Longrightarrow> ns \<noteq> [] \<Longrightarrow> P (last ns)"
  by (auto simp: stacks_hold_def)

lemma scenario_B_run:
  "\<exists>s. run_loop (tick_to_sixteenth 480) False init_state scenario_B = Inr s
       \<and> lines s = [scenario_B_line]"
proof -
  let ?r = "run_loop (tick_to_sixteenth 480) False init_state scenario_B"
  have "map_sum id lines ?r = Inr [scenario_B_line]" by code_simp
  then show ?thesis by (cases ?r) auto
qed

lemma scenario_B_deltas:
  "tick_to_sixteenth 480 480 = Inr 4" "tick_to_sixteenth 480 240 = Inr 2"
  by code_simp+

subsection \<open>Rests\<close>

lemma rests_positive_init: "rests_positive (Line_init st)"
  by (simp add: rests_positive_def Line_init_def Rest_init_def)

lemma rests_positive_append:
  "rests_positive l \<Longrightarrow> \<not> is_Rest n \<Longrightarrow> rests_positive (Line_append l n)"
  by (auto simp: rests_positive_def entries_Line_append Rest_init_def)

lemma rests_inv_step:
  assumes "rests_inv s" and "step t2s dv s m = Inr s'"
  shows "rests_inv s'"
proof -
  from step_cases [OF assms(2)] obtain dt where
    c: "s' = advance dt s \<or> s' = open_note dv (advance dt s) m
          \<or> close_note (advance dt s) m = Inr s'" by blast
  from assms(1) have a: "stacks_hold (\<lambda>n. \<not> is_Rest n) (advance dt s)"
    by (auto simp: rests_inv_def intro: stacks_hold_advance)
  from assms(1) have l: "\<forall>l\<in>set (lines (advance dt s)). rests_positive l"
    by (simp add: rests_inv_def advance_def)
  from c show ?thesis
  proof (elim disjE)
    assume "s' = advance dt s"
    with a l show ?thesis by (simp add: rests_inv_def)
  next
    assume s': "s' = open_note dv (advance dt s) m"
    have "stacks_hold (\<lambda>n. \<not> is_Rest n) (open_note dv (advance dt s) m)"
      by (rule stacks_hold_open [OF a]) (simp add: Note_init_def)
    moreover have "lines (open_note dv (advance dt s) m) = lines (advance dt s)"
      by (simp add: open_note_def Let_def)
    ultimately show ?thesis using l s' by (simp add: rests_inv_def)
  next
    assume cl: "close_note (advance dt s) m = Inr s'"
    have "\<forall>l\<in>set (lines s'). rests_positive l"
    proof (rule close_note_lines [OF cl l])
      fix ns
      assume "durations (advance dt s) (msg_note m) = Some ns" "ns \<noteq> []"
      from stacks_hold_last [OF a this] have "\<not> is_Rest (last ns)" .
      then show "(\<forall>l. rests_positive l \<and> Line_end l \<le> start (last ns)
                     \<longrightarrow> rests_positive (Line_append l (last ns)))
                 \<and> rests_positive (Line_append (Line_init (start (last ns))) (last ns))"
        by (simp add: rests_positive_append rests_positive_init)
    qed
    with stacks_hold_close [OF a cl] show ?thesis by (simp add: rests_inv_def)
  qed
qed

lemma rests_inv_init: "rests_inv init_state"
  by (simp add: rests_inv_def init_state_def stacks_hold_def)

text \<open>
  C10: every \<open>Rest\<close> in a line of the final state, that is every \<open>Rest\<close> that
  \<open>Line.__init__\<close> or \<open>Line.append\<close> has built, has a strictly positive duration, and
  encoding it does not fail the assertion of the decomposition. This holds for any
  quantiser, any event stream and any number of frames.
\<close>

theorem internal_rests_positive:
  assumes "run_loop t2s dv init_state msgs = Inr s"
    and "l \<in> set (lines s)" and "e \<in> set (entries l)" and "is_Rest e"
  shows "0 < duration e \<and> encode frames e \<noteq> Inl AssertionError"
proof -
  have "rests_inv s"
    by (rule run_loop_invariant [where P = rests_inv, OF assms(1) rests_inv_init]) (rule rests_inv_step)
  with assms(2,3,4) have pos: "0 < duration e"
    by (auto simp: rests_inv_def rests_positive_def)
  from assms(4) obtain p st du where e: "e = Rest p st du" by (cases e) auto
  with pos have "1 \<le> du" by simp
  from get_length_str_no_assertion [OF this, of frames p] e pos show ?thesis
    by (auto split: sum.splits)
qed

theorem internal_rests_positive_witness:
  "\<exists>s. run_loop (tick_to_sixteenth 480) False init_state scenario_B = Inr s
     \<and> scenario_B_line \<in> set (lines s)
     \<and> Rest ''R'' 6 4 \<in> set (entries scenario_B_line)
     \<and> is_Rest (Rest ''R'' 6 4)
     \<and> 0 < duration (Rest ''R'' 6 4)
     \<and> encode 1000 (Rest ''R'' 6 4) \<noteq> Inl AssertionError"
proof -
  from scenario_B_run obtain s where
    s: "run_loop (tick_to_sixteenth 480) False init_state scenario_B = Inr s"
    and l: "lines s = [scenario_B_line]" by blast
  have m: "scenario_B_line \<in> set (lines s)" by (simp add: l)
  have e: "Rest ''R'' 6 4 \<in> set (entries scenario_B_line)" by (simp add: scenario_B_line_def)
  have r: "is_Rest (Rest ''R'' 6 4)" by simp
  from internal_rests_positive [OF s m e r, of 1000] s m e r show ?thesis by blast
qed

subsection \<open>Contiguity\<close>

lemma contiguous_snoc:
  "contiguous a es b \<Longrightarrow> start e = b \<Longrightarrow> contiguous a (es @ [e]) (end_of e)"
  by (induction es arbitrary: a) auto

lemma contiguous_Suc:
  "contiguous a es b \<Longrightarrow> Suc i < length es \<Longrightarrow> start (es ! Suc i) = end_of (es ! i)"
proof (induction es arbitrary: a i)
  case Nil
  then show ?case by simp
next
  case (Cons e es)
  show ?case
  proof (cases i)
    case 0
    with Cons.prems show ?thesis by (cases es) auto
  next
    case (Suc k)
    with Cons.prems Cons.IH [of "end_of e" k] show ?thesis by simp
  qed
qed

lemma contiguous_first: "contiguous a es b \<Longrightarrow> es \<noteq> [] \<Longrightarrow> start (es ! 0) = a"
  by (cases es) auto

lemma contiguous_ordered:
  assumes c: "contiguous a es b" and d: "\<forall>e\<in>set es. 0 \<le> duration e"
    and j: "j < length es"
  shows "i < j \<Longrightarrow> end_of (es ! i) \<le> start (es ! j)"
  using j
proof (induction j)
  case 0
  then show ?case by simp
next
  case (Suc j)
  from Suc.prems have eq: "start (es ! Suc j) = end_of (es ! j)"
    by (intro contiguous_Suc [OF c]) simp
  show ?case
  proof (cases "i = j")
    case True
    with eq show ?thesis by simp
  next
    case False
    with Suc have "end_of (es ! i) \<le> start (es ! j)" by simp
    moreover from d Suc.prems(2) have "0 \<le> duration (es ! j)" by simp
    ultimately show ?thesis using eq by (simp add: end_of_def)
  qed
qed

lemma line_ok_append:
  assumes "line_ok l" and "Line_end l \<le> start n" and "0 \<le> duration n"
  shows "line_ok (Line_append l n)"
proof (cases "start n > Line_end l")
  case True
  let ?r = "Rest_init (Line_end l) (start n - Line_end l)"
  from assms(1) have "contiguous 0 (entries l) (Line_end l)" by (simp add: line_ok_def)
  then have "contiguous 0 (entries l @ [?r]) (end_of ?r)"
    by (rule contiguous_snoc) (simp add: Rest_init_def)
  moreover have "end_of ?r = start n" by (simp add: end_of_def Rest_init_def)
  ultimately have "contiguous 0 ((entries l @ [?r]) @ [n]) (end_of n)"
    by (intro contiguous_snoc) simp_all
  with True assms show ?thesis
    by (auto simp: line_ok_def entries_Line_append Line_end_append end_of_def Rest_init_def)
next
  case False
  with assms(2) have eq: "start n = Line_end l" by simp
  from assms(1) have "contiguous 0 (entries l) (Line_end l)" by (simp add: line_ok_def)
  then have "contiguous 0 (entries l @ [n]) (end_of n)"
    by (rule contiguous_snoc) (simp add: eq)
  with False assms eq show ?thesis
    by (auto simp: line_ok_def entries_Line_append Line_end_append end_of_def)
qed

lemma line_ok_init_append:
  assumes "0 \<le> start n" and "0 \<le> duration n"
  shows "line_ok (Line_append (Line_init (start n)) n)"
proof -
  have e: "Line_end (Line_init (start n)) = start n"
    by (simp add: Line_end_def Line_init_def)
  have i: "entries (Line_init (start n)) = (if start n > 0 then [Rest_init 0 (start n)] else [])"
    by (simp add: Line_init_def)
  show ?thesis
    using assms
    by (auto simp: line_ok_def entries_Line_append Line_end_append e i end_of_def
          Rest_init_def)
qed

text \<open>
  With a positive \<open>tpb\<close>, the quantiser takes a non-negative number of ticks to a
  non-negative number of sixteenths.
\<close>

lemma py_round_nonneg: "0 \<le> x \<Longrightarrow> 0 \<le> py_round x"
  by (auto simp: py_round_def Let_def)

lemma tick_to_sixteenth_nonneg:
  assumes "0 < tpb0" and "0 \<le> ticks" and "tick_to_sixteenth tpb0 ticks = Inr dt"
  shows "0 \<le> dt"
proof -
  from assms(1,2) have "0 \<le> of_int ticks / tpb0 * 4" by simp
  from py_round_nonneg [OF this] assms(1,3) show ?thesis
    by (simp add: tick_to_sixteenth_def)
qed

lemma lines_inv_step:
  assumes inv: "lines_inv s" and st: "step t2s dv s m = Inr s'"
    and nn: "\<forall>dt. t2s (msg_time m) = Inr dt \<longrightarrow> 0 \<le> dt"
  shows "lines_inv s'"
proof -
  let ?P = "\<lambda>n. 0 \<le> start n \<and> 0 \<le> duration n"
  from step_cases [OF st] obtain dt where dt: "t2s (msg_time m) = Inr dt" and
    c: "s' = advance dt s \<or> s' = open_note dv (advance dt s) m
          \<or> close_note (advance dt s) m = Inr s'" by blast
  from nn dt have pos: "0 \<le> dt" by simp
  from inv pos have a: "stacks_hold ?P (advance dt s)"
    by (auto simp: lines_inv_def intro: stacks_hold_advance)
  from inv have l: "\<forall>l\<in>set (lines (advance dt s)). line_ok l"
    by (simp add: lines_inv_def advance_def)
  from inv pos have t: "0 \<le> time (advance dt s)"
    by (simp add: lines_inv_def advance_def)
  from c show ?thesis
  proof (elim disjE)
    assume "s' = advance dt s"
    with a l t show ?thesis by (simp add: lines_inv_def)
  next
    assume s': "s' = open_note dv (advance dt s) m"
    have "stacks_hold ?P (open_note dv (advance dt s) m)"
      by (rule stacks_hold_open [OF a]) (simp add: Note_init_def t)
    moreover have "lines (open_note dv (advance dt s) m) = lines (advance dt s)"
      "time (open_note dv (advance dt s) m) = time (advance dt s)"
      by (simp_all add: open_note_def Let_def)
    ultimately show ?thesis using l t s' by (simp add: lines_inv_def)
  next
    assume cl: "close_note (advance dt s) m = Inr s'"
    have "\<forall>l\<in>set (lines s'). line_ok l"
    proof (rule close_note_lines [OF cl l])
      fix ns
      assume "durations (advance dt s) (msg_note m) = Some ns" "ns \<noteq> []"
      from stacks_hold_last [OF a this] have "0 \<le> start (last ns)" "0 \<le> duration (last ns)"
        by simp_all
      then show "(\<forall>l. line_ok l \<and> Line_end l \<le> start (last ns)
                     \<longrightarrow> line_ok (Line_append l (last ns)))
                 \<and> line_ok (Line_append (Line_init (start (last ns))) (last ns))"
        by (simp add: line_ok_append line_ok_init_append)
    qed
    moreover from close_note_cases [OF cl] have "time s' = time (advance dt s)" by blast
    ultimately show ?thesis using stacks_hold_close [OF a cl] t by (simp add: lines_inv_def)
  qed
qed

lemma lines_inv_init: "lines_inv init_state"
  by (simp add: lines_inv_def init_state_def stacks_hold_def)

text \<open>
  C6: when no quantised delta of the stream is negative, every line of the final state
  has a first entry that starts at time 0, each further entry starts where the one before
  it ends, and an entry ends no later than any later entry of the line starts, so no two
  notes of a line overlap.
\<close>

theorem lines_contiguous:
  assumes run: "run_loop t2s dv init_state msgs = Inr s"
    and nn: "\<forall>m\<in>set msgs. \<forall>dt. t2s (msg_time m) = Inr dt \<longrightarrow> 0 \<le> dt"
    and l: "l \<in> set (lines s)"
  shows "entries l \<noteq> [] \<and> start (entries l ! 0) = 0
         \<and> (\<forall>i. Suc i < length (entries l) \<longrightarrow>
                start (entries l ! Suc i) = end_of (entries l ! i))
         \<and> (\<forall>i j. i < j \<and> j < length (entries l) \<longrightarrow>
                end_of (entries l ! i) \<le> start (entries l ! j))"
proof -
  have "lines_inv s"
  proof (rule run_loop_invariant [where P = lines_inv, OF run lines_inv_init])
    fix s0 m s1
    assume "m \<in> set msgs" "lines_inv s0" "step t2s dv s0 m = Inr s1"
    with nn show "lines_inv s1" by (intro lines_inv_step [of s0 t2s dv m s1]) auto
  qed
  with l have ok: "line_ok l" by (simp add: lines_inv_def)
  then have ne: "entries l \<noteq> []" and c: "contiguous 0 (entries l) (Line_end l)"
    and d: "\<forall>e\<in>set (entries l). 0 \<le> duration e"
    by (simp_all add: line_ok_def)
  from contiguous_first [OF c ne] have "start (entries l ! 0) = 0" .
  moreover from contiguous_Suc [OF c]
  have "\<forall>i. Suc i < length (entries l) \<longrightarrow> start (entries l ! Suc i) = end_of (entries l ! i)"
    by blast
  moreover from contiguous_ordered [OF c d]
  have "\<forall>i j. i < j \<and> j < length (entries l) \<longrightarrow> end_of (entries l ! i) \<le> start (entries l ! j)"
    by blast
  ultimately show ?thesis using ne by blast
qed

theorem lines_contiguous_witness:
  "\<exists>s. run_loop (tick_to_sixteenth 480) False init_state scenario_B = Inr s
     \<and> lines s = [scenario_B_line]
     \<and> start (entries scenario_B_line ! 0) = 0
     \<and> start (entries scenario_B_line ! 3) = end_of (entries scenario_B_line ! 2)
     \<and> end_of (entries scenario_B_line ! 1) \<le> start (entries scenario_B_line ! 3)"
proof -
  from scenario_B_run obtain s where
    s: "run_loop (tick_to_sixteenth 480) False init_state scenario_B = Inr s"
    and l: "lines s = [scenario_B_line]" by blast
  have nn: "\<forall>m\<in>set scenario_B. \<forall>dt. tick_to_sixteenth 480 (msg_time m) = Inr dt \<longrightarrow> 0 \<le> dt"
    by (auto simp: scenario_B_def scenario_B_deltas)
  have m: "scenario_B_line \<in> set (lines s)" by (simp add: l)
  have len: "length (entries scenario_B_line) = 4" by (simp add: scenario_B_line_def)
  from lines_contiguous [OF s nn m] have
    a: "start (entries scenario_B_line ! 0) = 0"
    and b: "\<forall>i. Suc i < length (entries scenario_B_line) \<longrightarrow>
              start (entries scenario_B_line ! Suc i) = end_of (entries scenario_B_line ! i)"
    and c: "\<forall>i j. i < j \<and> j < length (entries scenario_B_line) \<longrightarrow>
              end_of (entries scenario_B_line ! i) \<le> start (entries scenario_B_line ! j)"
    by blast+
  from b [rule_format, of 2] len
  have b3: "start (entries scenario_B_line ! 3) = end_of (entries scenario_B_line ! 2)"
    by simp
  from c [rule_format, of 1 3] len
  have c13: "end_of (entries scenario_B_line ! 1) \<le> start (entries scenario_B_line ! 3)"
    by simp
  from s l a b3 c13 show ?thesis by blast
qed

section \<open>Notes that are never closed\<close>

lemma simI:
  assumes "time s1 = time s2" and "lines s1 = lines s2"
    and "\<And>k'. k' \<noteq> k \<Longrightarrow> durations s1 k' = durations s2 k'"
    and "durations s1 k = Some (xs @ x # ys)" and "stack_of s2 k = xs @ ys"
    and "length ys = a"
  shows "sim k a s1 s2"
  using assms unfolding sim_def by blast

lemma stack_of_advance: "stack_of (advance dt s) k = map (add_duration dt) (stack_of s k)"
  by (simp add: stack_of_def advance_def split: option.splits)

lemma sim_advance:
  assumes "sim k a s1 s2"
  shows "sim k a (advance dt s1) (advance dt s2)"
proof -
  from assms obtain xs x ys where
    d: "durations s1 k = Some (xs @ x # ys)" "stack_of s2 k = xs @ ys" "length ys = a"
    by (auto simp: sim_def)
  let ?f = "add_duration dt"
  have "durations (advance dt s1) k = Some (map ?f xs @ ?f x # map ?f ys)"
    using d(1) by (simp add: advance_def)
  moreover have "stack_of (advance dt s2) k = map ?f xs @ map ?f ys"
    using d(2) by (simp add: stack_of_advance)
  moreover have "length (map ?f ys) = a" using d(3) by simp
  ultimately have "\<exists>xs x ys. durations (advance dt s1) k = Some (xs @ x # ys)
      \<and> stack_of (advance dt s2) k = xs @ ys \<and> length ys = a" by blast
  with assms show ?thesis by (simp add: sim_def advance_def)
qed

lemma sim_open_same:
  assumes "sim k a s1 s2" and "msg_note m = k"
  shows "sim k (Suc a) (open_note dv s1 m) (open_note dv s2 m)"
proof -
  from assms(1) obtain xs x ys where
    d: "durations s1 k = Some (xs @ x # ys)" "stack_of s2 k = xs @ ys" "length ys = a"
    and t: "time s1 = time s2"
    by (auto simp: sim_def)
  let ?n = "Note_init m (time s2) 0 dv"
  have "durations (open_note dv s1 m) k = Some (xs @ x # (ys @ [?n]))"
    using d(1) t assms(2) by (simp add: open_note_def)
  moreover have "stack_of (open_note dv s2 m) k = xs @ (ys @ [?n])"
    using d(2) assms(2) by (simp add: open_note_def stack_of_def)
  moreover have "length (ys @ [?n]) = Suc a" using d(3) by simp
  ultimately have "\<exists>xs x ys. durations (open_note dv s1 m) k = Some (xs @ x # ys)
      \<and> stack_of (open_note dv s2 m) k = xs @ ys \<and> length ys = Suc a" by blast
  with assms show ?thesis by (simp add: sim_def open_note_def Let_def)
qed

lemma sim_open_other:
  assumes "sim k a s1 s2" and "msg_note m \<noteq> k"
  shows "sim k a (open_note dv s1 m) (open_note dv s2 m)"
  using assms by (simp add: sim_def open_note_def Let_def stack_of_def)

lemma sim_close_same:
  assumes "sim k a s1 s2" and "msg_note m = k" and "0 < a"
  shows "\<exists>s1' s2'. close_note s1 m = Inr s1' \<and> close_note s2 m = Inr s2' \<and> sim k (a - 1) s1' s2'"
proof -
  from assms(1) obtain xs x ys where
    d: "durations s1 k = Some (xs @ x # ys)" "stack_of s2 k = xs @ ys" "length ys = a"
    and t: "time s1 = time s2" and l: "lines s1 = lines s2"
    and o: "\<forall>k'. k' \<noteq> k \<longrightarrow> durations s1 k' = durations s2 k'"
    by (auto simp: sim_def)
  from d(3) assms(3) have ne: "ys \<noteq> []" by auto
  with d(2) have d2: "durations s2 k = Some (xs @ ys)"
    by (auto simp: stack_of_def split: option.splits)
  from ne have la: "last (xs @ x # ys) = last ys" "last (xs @ ys) = last ys"
    and bl: "butlast (xs @ x # ys) = xs @ x # butlast ys" "butlast (xs @ ys) = xs @ butlast ys"
    by (simp_all add: butlast_append)
  obtain ls i where g: "get_available_line (lines s2) (last ys) = (ls, i)"
    by (cases "get_available_line (lines s2) (last ys)")
  let ?s1 = "s1\<lparr>durations := (durations s1)(k \<mapsto> xs @ x # butlast ys),
                 lines := ls[i := Line_append (ls ! i) (last ys)]\<rparr>"
  let ?s2 = "s2\<lparr>durations := (durations s2)(k \<mapsto> xs @ butlast ys),
                 lines := ls[i := Line_append (ls ! i) (last ys)]\<rparr>"
  have c1: "close_note s1 m = Inr ?s1"
    using d(1) assms(2) la bl g l ne by (simp add: close_note_def)
  have c2: "close_note s2 m = Inr ?s2"
    using d2 assms(2) la bl g ne by (simp add: close_note_def)
  have "sim k (a - 1) ?s1 ?s2"
  proof (rule simI [where xs = xs and x = x and ys = "butlast ys"])
    show "length (butlast ys) = a - 1" using d(3) by simp
  qed (use t o in \<open>simp_all add: stack_of_def\<close>)
  with c1 c2 show ?thesis by blast
qed

lemma sim_close_other:
  assumes "sim k a s1 s2" and "msg_note m \<noteq> k"
  shows "(\<exists>e. close_note s1 m = Inl e \<and> close_note s2 m = Inl e)
       \<or> (\<exists>s1' s2'. close_note s1 m = Inr s1' \<and> close_note s2 m = Inr s2' \<and> sim k a s1' s2')"
proof -
  from assms have eq: "durations s1 (msg_note m) = durations s2 (msg_note m)"
    and l: "lines s1 = lines s2"
    by (auto simp: sim_def)
  show ?thesis
  proof (cases "durations s2 (msg_note m)")
    case None
    with eq show ?thesis by (simp add: close_note_def)
  next
    case (Some ns)
    show ?thesis
    proof (cases "ns = []")
      case True
      with Some eq show ?thesis by (simp add: close_note_def)
    next
      case False
      obtain ls i where g: "get_available_line (lines s2) (last ns) = (ls, i)"
        by (cases "get_available_line (lines s2) (last ns)")
      let ?s1 = "s1\<lparr>durations := (durations s1)(msg_note m \<mapsto> butlast ns),
                     lines := ls[i := Line_append (ls ! i) (last ns)]\<rparr>"
      let ?s2 = "s2\<lparr>durations := (durations s2)(msg_note m \<mapsto> butlast ns),
                     lines := ls[i := Line_append (ls ! i) (last ns)]\<rparr>"
      have c1: "close_note s1 m = Inr ?s1"
        using Some eq False g l by (simp add: close_note_def)
      have c2: "close_note s2 m = Inr ?s2"
        using Some False g by (simp add: close_note_def)
      from assms have "sim k a ?s1 ?s2"
        by (auto simp: sim_def stack_of_def)
      with c1 c2 show ?thesis by blast
    qed
  qed
qed

lemma sim_run:
  assumes "sim k a s1 s2" and "stays_open k a ms"
  shows "map_sum id lines (run_loop t2s dv s1 ms) = map_sum id lines (run_loop t2s dv s2 ms)"
  using assms
proof (induction ms arbitrary: a s1 s2)
  case Nil
  then show ?case by (simp add: sim_def)
next
  case (Cons m ms)
  show ?case
  proof (cases "t2s (msg_time m)")
    case (Inl e)
    then show ?thesis by (simp add: step_def)
  next
    case (Inr dt)
    let ?a1 = "advance dt s1" and ?a2 = "advance dt s2"
    from Cons.prems(1) have adv: "sim k a ?a1 ?a2" by (rule sim_advance)
    have opens: ?thesis
      if "step t2s dv s1 m = Inr (open_note dv ?a1 m)"
        and "step t2s dv s2 m = Inr (open_note dv ?a2 m)"
        and "stays_open k (if msg_note m = k then Suc a else a) ms"
    proof (cases "msg_note m = k")
      case True
      with adv have "sim k (Suc a) (open_note dv ?a1 m) (open_note dv ?a2 m)"
        by (intro sim_open_same)
      with that True Cons.IH [of "Suc a"] show ?thesis by simp
    next
      case False
      with adv have "sim k a (open_note dv ?a1 m) (open_note dv ?a2 m)"
        by (intro sim_open_other)
      with that False Cons.IH [of a] show ?thesis by simp
    qed
    have closes: ?thesis
      if s1: "step t2s dv s1 m = close_note ?a1 m"
        and s2: "step t2s dv s2 m = close_note ?a2 m"
        and so: "if msg_note m = k then 0 < a \<and> stays_open k (a - 1) ms else stays_open k a ms"
    proof (cases "msg_note m = k")
      case True
      with so have a: "0 < a" and r: "stays_open k (a - 1) ms" by simp_all
      from sim_close_same [OF adv True a] obtain s1' s2' where
        "close_note ?a1 m = Inr s1'" "close_note ?a2 m = Inr s2'" "sim k (a - 1) s1' s2'"
        by blast
      with s1 s2 Cons.IH [OF _ r] show ?thesis by simp
    next
      case False
      with so have r: "stays_open k a ms" by simp
      from sim_close_other [OF adv False] show ?thesis
      proof (elim disjE exE conjE)
        fix e
        assume "close_note ?a1 m = Inl e" "close_note ?a2 m = Inl e"
        with s1 s2 show ?thesis by simp
      next
        fix s1' s2'
        assume "close_note ?a1 m = Inr s1'" "close_note ?a2 m = Inr s2'" "sim k a s1' s2'"
        with s1 s2 Cons.IH [OF _ r] show ?thesis by simp
      qed
    qed
    show ?thesis
    proof (cases m)
      case (note_on t n v)
      show ?thesis
      proof (cases "v > 0")
        case True
        with note_on Inr Cons.prems(2) show ?thesis
          by (intro opens) (simp_all add: step_def)
      next
        case False
        with note_on Inr Cons.prems(2) show ?thesis
          by (intro closes) (simp_all add: step_def split: if_splits)
      qed
    next
      case (note_off t n v)
      with Inr Cons.prems(2) show ?thesis
        by (intro closes) (simp_all add: step_def)
    next
      case (other_msg ty t)
      with Cons.prems(2) have "stays_open k a ms" by simp
      from Cons.IH [OF adv this] other_msg Inr show ?thesis by (simp add: step_def)
    qed
  qed
qed

lemma sim_after_open:
  "sim (msg_note m) 0 (open_note dv s m) s"
proof (rule simI [where xs = "stack_of s (msg_note m)" and x = "Note_init m (time s) 0 dv"
      and ys = "[]"])
  show "durations (open_note dv s m) (msg_note m)
          = Some (stack_of s (msg_note m) @ Note_init m (time s) 0 dv # [])"
    by (simp add: open_note_def stack_of_def)
qed (simp_all add: open_note_def Let_def)

lemma encode_with_lines:
  "encode_with frames t2s dv msgs =
     (case map_sum id lines (run_loop t2s dv init_state msgs) of
        Inl e \<Rightarrow> Inl e | Inr ls \<Rightarrow> encode_lines frames ls)"
  by (simp add: encode_with_def split: sum.splits)

text \<open>
  C9: a note-on of positive velocity whose note stays open to the end of the stream has
  the effect of an ignored message with the same delta time: the run ends in the same
  lines (or in the same error), so the note is in no line, and the output is the same, so
  it contributes no token.
\<close>

theorem unmatched_note_discarded:
  assumes "0 < v" and "stays_open n 0 post"
  shows "map_sum id lines (run_loop t2s dv init_state (pre @ note_on t n v # post))
           = map_sum id lines (run_loop t2s dv init_state (pre @ other_msg ty t # post))
       \<and> encode_with frames t2s dv (pre @ note_on t n v # post)
           = encode_with frames t2s dv (pre @ other_msg ty t # post)"
proof -
  have l: "map_sum id lines (run_loop t2s dv init_state (pre @ note_on t n v # post))
           = map_sum id lines (run_loop t2s dv init_state (pre @ other_msg ty t # post))"
  proof (cases "run_loop t2s dv init_state pre")
    case (Inl e)
    then show ?thesis by (simp add: run_loop_append)
  next
    case (Inr s)
    show ?thesis
    proof (cases "t2s t")
      case (Inl e)
      with Inr show ?thesis by (simp add: run_loop_append step_def)
    next
      case dt: (Inr dt)
      have "sim n 0 (open_note dv (advance dt s) (note_on t n v)) (advance dt s)"
        using sim_after_open [of "note_on t n v" dv "advance dt s"] by simp
      from sim_run [OF this assms(2)] Inr dt assms(1) show ?thesis
        by (simp add: run_loop_append step_def)
    qed
  qed
  then show ?thesis by (simp add: encode_with_lines)
qed

theorem unmatched_note_discarded_witness:
  "(0::int) < 100 \<and> stays_open 60 0 [note_on 0 60 90, note_off 480 60 0, note_off 0 64 0]
   \<and> encode_with 1000 (tick_to_sixteenth 480) False
        ([note_on 0 64 80] @ note_on 0 60 100
           # [note_on 0 60 90, note_off 480 60 0, note_off 0 64 0])
      = encode_with 1000 (tick_to_sixteenth 480) False
        ([note_on 0 64 80] @ other_msg ''end_of_track'' 0
           # [note_on 0 60 90, note_off 480 60 0, note_off 0 64 0])
   \<and> encode_with 1000 (tick_to_sixteenth 480) False
        ([note_on 0 64 80] @ note_on 0 60 100
           # [note_on 0 60 90, note_off 480 60 0, note_off 0 64 0])
      = Inr ''V11O4C8.&C16,V10O4E8.&E16''"
proof -
  have "encode_with 1000 (tick_to_sixteenth 480) False
        ([note_on 0 64 80] @ other_msg ''end_of_track'' 0
           # [note_on 0 60 90, note_off 480 60 0, note_off 0 64 0])
      = Inr ''V11O4C8.&C16,V10O4E8.&E16''"
    by code_simp
  with unmatched_note_discarded [of 100 60
      "[note_on 0 60 90, note_off 480 60 0, note_off 0 64 0]"
      "tick_to_sixteenth 480" False "[note_on 0 64 80]" 0 "''end_of_track''" 1000]
  show ?thesis by simp
qed

section \<open>The score encoder\<close>

lemma extends_refl: "extends ls ls"
  by (simp add: extends_def)

lemma extends_trans:
  assumes "extends a b" and "extends b c"
  shows "extends a c"
proof -
  have "\<exists>added. entries (c ! i) = entries (a ! i) @ added" if i: "i < length a" for i
  proof -
    from assms(1) i obtain m1 where m1: "entries (b ! i) = entries (a ! i) @ m1"
      by (auto simp: extends_def)
    from assms(1) i have "i < length b" by (simp add: extends_def)
    with assms(2) obtain m2 where "entries (c ! i) = entries (b ! i) @ m2"
      by (auto simp: extends_def)
    with m1 show ?thesis by simp
  qed
  with assms show ?thesis by (simp add: extends_def)
qed

lemma extends_update:
  assumes "i < length ls" and "entries l' = entries (ls ! i) @ added"
  shows "extends ls (ls[i := l'])"
  using assms by (auto simp: extends_def nth_list_update)

lemma extends_snoc: "extends ls (ls @ [l])"
  by (simp add: extends_def nth_append)

lemma step_extends:
  assumes "step t2s dv s m = Inr s'"
  shows "extends (lines s) (lines s')"
proof -
  from step_cases [OF assms] obtain dt where
    c: "s' = advance dt s \<or> s' = open_note dv (advance dt s) m
          \<or> close_note (advance dt s) m = Inr s'" by blast
  have a: "lines (advance dt s) = lines s" by (simp add: advance_def)
  from c show ?thesis
  proof (elim disjE)
    assume "s' = advance dt s"
    with a show ?thesis by (simp add: extends_refl)
  next
    assume "s' = open_note dv (advance dt s) m"
    with a show ?thesis by (simp add: extends_refl open_note_def Let_def)
  next
    assume "close_note (advance dt s) m = Inr s'"
    from close_note_cases [OF this] a obtain ns where
      "(\<exists>i<length (lines s). lines s' = (lines s)[i := Line_append (lines s ! i) (last ns)])
       \<or> lines s' = lines s @ [Line_append (Line_init (start (last ns))) (last ns)]"
      by auto
    then show ?thesis
      by (auto simp: extends_snoc entries_Line_append intro!: extends_update)
  qed
qed

lemma run_loop_extends:
  "run_loop t2s dv s msgs = Inr s' \<Longrightarrow> extends (lines s) (lines s')"
proof (induction msgs arbitrary: s)
  case Nil
  then show ?case by (simp add: extends_refl)
next
  case (Cons m msgs)
  from Cons.prems obtain s1 where s1: "step t2s dv s m = Inr s1"
    and r: "run_loop t2s dv s1 msgs = Inr s'"
    by (auto split: sum.splits)
  from step_extends [OF s1] Cons.IH [OF r] show ?case by (rule extends_trans)
qed

text \<open>
  C7: when the loop of the track encoder ends in a state \<open>s\<close> and the lines of \<open>s\<close>
  encode to \<open>strs\<close>, the document is the header, the tempo tag unless the tempo is 120,
  the strings joined by commas, and the terminator. The list of lines is in the order of
  creation: the lines of the state \<open>s0\<close> reached after any prefix of the track are still
  at their indices in \<open>s\<close>.
\<close>

theorem Midi_encode_format:
  assumes run: "run_loop (tick_to_sixteenth (tpb (midi_track m))) (disable_vel (midi_track m))
             init_state (track (midi_track m)) = Inr s"
    and enc: "map (Line_encode frames) (lines s) = map Inr strs"
    and tr: "track (midi_track m) = pre @ post"
    and p0: "run_loop (tick_to_sixteenth (tpb (midi_track m))) (disable_vel (midi_track m))
             init_state pre = Inr s0"
  shows "Midi_encode frames m =
           Inr (''7ML@'' @ (if tempo m = 120 then [] else ''T'' @ str_int (tempo m))
                @ join '','' strs @ '';'')
         \<and> extends (lines s0) (lines s)"
proof -
  have "run_loop (tick_to_sixteenth (tpb (midi_track m))) (disable_vel (midi_track m)) s0 post
          = Inr s"
    using run unfolding tr run_loop_append p0 by simp
  then have "extends (lines s0) (lines s)" by (rule run_loop_extends)
  with run enc show ?thesis
    by (simp add: Midi_encode_def Track_encode_def encode_with_def encode_lines_def
          collect_Inr_I)
qed

theorem Midi_encode_format_witness:
  "\<exists>s0 s. run_loop (tick_to_sixteenth (tpb (midi_track scenario_C)))
          (disable_vel (midi_track scenario_C)) init_state (track (midi_track scenario_C)) = Inr s
     \<and> map (Line_encode 1000) (lines s) = map Inr [''O4C8.&C16'', ''V10O4E8.&E16'']
     \<and> track (midi_track scenario_C)
         = [note_on 0 60 100, note_on 0 64 80, note_off 480 60 0] @ [note_off 0 64 0]
     \<and> run_loop (tick_to_sixteenth (tpb (midi_track scenario_C)))
          (disable_vel (midi_track scenario_C)) init_state
          [note_on 0 60 100, note_on 0 64 80, note_off 480 60 0] = Inr s0
     \<and> map (Line_encode 1000) (lines s0) = map Inr [''O4C8.&C16'']
     \<and> Midi_encode 1000 scenario_C = Inr ''7ML@T90O4C8.&C16,V10O4E8.&E16;''
     \<and> extends (lines s0) (lines s)"
proof -
  let ?t = "tick_to_sixteenth (tpb (midi_track scenario_C))"
  let ?d = "disable_vel (midi_track scenario_C)"
  let ?r = "run_loop ?t ?d init_state (track (midi_track scenario_C))"
  let ?rp = "run_loop ?t ?d init_state [note_on 0 60 100, note_on 0 64 80, note_off 480 60 0]"
  have "map_sum id (\<lambda>s. map (Line_encode 1000) (lines s)) ?r
          = Inr [Inr ''O4C8.&C16'', Inr ''V10O4E8.&E16'']"
    by code_simp
  then obtain s where s: "?r = Inr s"
    and l: "map (Line_encode 1000) (lines s) = map Inr [''O4C8.&C16'', ''V10O4E8.&E16'']"
    by (cases ?r) auto
  have "map_sum id (\<lambda>s. map (Line_encode 1000) (lines s)) ?rp = Inr [Inr ''O4C8.&C16'']"
    by code_simp
  then obtain s0 where s0: "?rp = Inr s0"
    and l0: "map (Line_encode 1000) (lines s0) = map Inr [''O4C8.&C16'']"
    by (cases ?rp) auto
  have sp: "track (midi_track scenario_C)
         = [note_on 0 60 100, note_on 0 64 80, note_off 480 60 0] @ [note_off 0 64 0]"
    by (simp add: scenario_C_def Midi_init_def Track_init_def)
  have t: "tempo scenario_C = 90" by (simp add: scenario_C_def Midi_init_def)
  have n: "str_int 90 = ''90''" by code_simp
  from Midi_encode_format [OF s l sp s0] t n
  have "Midi_encode 1000 scenario_C = Inr ''7ML@T90O4C8.&C16,V10O4E8.&E16;''"
    and "extends (lines s0) (lines s)" by simp_all
  with s l sp s0 l0 show ?thesis by blast
qed

text \<open>
  C2, as the code has it: in scenario A the note-off advances the time by 4 sixteenths and
  the note gets the duration 4; its velocity bucket is 12, since \<open>round\<close> takes the tie
  12.5 to the even 12, so no velocity prefix is written; the token is \<open>O4C\<close> followed by
  the length string of the duration 4, and the document is that token between the header
  and the terminator (with two frames or more left for the length string).
\<close>

theorem scenario_A_encoding:
  "tick_to_sixteenth (tpb (midi_track scenario_A)) 480 = Inr 4
   \<and> velocity (Note_init (note_on 0 60 100) 0 0 False) = 12
   \<and> (\<exists>s len. run_loop (tick_to_sixteenth (tpb (midi_track scenario_A))) False init_state
                 (track (midi_track scenario_A)) = Inr s
        \<and> lines s = [\<lparr>entries = [Note 60 ''C'' 4 0 4 12], Line_start = 0, Line_duration = 4\<rparr>]
        \<and> get_length_str (Suc (Suc n)) ''C'' 4 = Inr len
        \<and> encode (Suc (Suc n)) (Note 60 ''C'' 4 0 4 12) = Inr (''O4C'' @ len)
        \<and> Midi_encode (Suc (Suc n)) scenario_A = Inr (''7ML@'' @ ''O4C'' @ len @ '';''))"
proof -
  let ?r = "run_loop (tick_to_sixteenth (tpb (midi_track scenario_A))) False init_state
                 (track (midi_track scenario_A))"
  have a: "tick_to_sixteenth (tpb (midi_track scenario_A)) 480 = Inr 4" by code_simp
  have b: "velocity (Note_init (note_on 0 60 100) 0 0 False) = 12" by code_simp
  have "map_sum id lines ?r =
          Inr [\<lparr>entries = [Note 60 ''C'' 4 0 4 12], Line_start = 0, Line_duration = 4\<rparr>]"
    by code_simp
  then obtain s where s: "?r = Inr s"
     "lines s = [\<lparr>entries = [Note 60 ''C'' 4 0 4 12], Line_start = 0, Line_duration = 4\<rparr>]"
    by (cases ?r) auto
  obtain len where len: "get_length_str (Suc (Suc n)) ''C'' 4 = Inr len"
    by (simp add: get_length_str.simps [of "Suc (Suc n)" "''C''" 4]
          get_length_str.simps [of "Suc n" "''C''" 1] find_low_def length_table_def)
  have e: "encode (Suc (Suc n)) (Note 60 ''C'' 4 0 4 12) = Inr (''O4C'' @ len)"
  proof -
    have "str_int 4 = ''4''" by code_simp
    with len show ?thesis by simp
  qed
  have "disable_vel (midi_track scenario_A) = False" "tempo scenario_A = 120"
    by (simp_all add: scenario_A_def Midi_init_def Track_init_def)
  with s e
  have "Midi_encode (Suc (Suc n)) scenario_A = Inr (''7ML@'' @ ''O4C'' @ len @ '';'')"
    by (simp add: Midi_encode_def Track_encode_def encode_with_def encode_lines_def
          Line_encode_def)
  with a b s len e show ?thesis by blast
qed

theorem scenario_A_counterexample:
  "velocity (Note_init (note_on 0 60 100) 0 0 False) \<noteq> 13
   \<and> Midi_encode 1000 scenario_A \<noteq> Inr ''7ML@V13O4C;''"
  by code_simp

end
